theory Spec2Isabelle
  imports Complex_Main "HOL-Library.Word"
begin

unbundle bit_operations_syntax

section \<open>Data model\<close>

text \<open>
  The program targets RV32I: \<open>uint32_t\<close> and \<open>unsigned long\<close> are both 32-bit
  unsigned integers. Arithmetic on them wraps modulo \<open>2 ^ 32\<close>.
\<close>

type_synonym u32 = "32 word"

text \<open>The value of a C comparison: the \<open>int\<close> 1 when it holds, 0 otherwise.\<close>

definition b2i :: "bool \<Rightarrow> int" where
  "b2i b = (if b then 1 else 0)"

text \<open>
  What C leaves undefined and the top-level routine could reach with a computed operand:
  a read outside the 32-entry table, a shift of a 32-bit value by 32 or more.
\<close>

datatype fault = IndexOutOfRange | ShiftOutOfRange

section \<open>Leading zero count (\<open>clz\<close>)\<close>

definition clz :: "u32 \<Rightarrow> u32" where
  "clz x0 =
     (let r = (0::int);
          x = x0;
          c = push_bit 4 (b2i (x < 0x00010000)); r = r + c; x = push_bit (nat c) x;
          c = push_bit 3 (b2i (x < 0x01000000)); r = r + c; x = push_bit (nat c) x;
          c = push_bit 2 (b2i (x < 0x10000000)); r = r + c; x = push_bit (nat c) x;
          c = push_bit 1 (b2i (x < 0x40000000)); r = r + c; x = push_bit (nat c) x;
          c = b2i (x < 0x80000000); r = r + c; x = push_bit (nat c) x;
          r = r + b2i (x = 0)
      in word_of_int r)"

section \<open>Software division and modulo (\<open>udiv\<close>, \<open>umod\<close>)\<close>

text \<open>
  The loop \<open>for (int i = 31; i >= 0; i--)\<close>: the first argument counts the iterations
  left, so the equation for \<open>Suc i\<close> is the loop body at index \<open>i\<close>. The source's
  \<open>quotient\<close> is written \<open>quot\<close> and its \<open>exp\<close> is written \<open>expn\<close>, both names being
  constants of the library.
\<close>

fun udiv_loop :: "nat \<Rightarrow> u32 \<Rightarrow> u32 \<Rightarrow> u32 \<times> u32 \<Rightarrow> u32 \<times> u32" where
  "udiv_loop 0 dividend divisor (quot, remainder) = (quot, remainder)"
| "udiv_loop (Suc i) dividend divisor (quot, remainder) =
     (let remainder = push_bit 1 remainder;
          remainder = remainder OR (drop_bit i dividend AND 1)
      in if divisor \<le> remainder
         then udiv_loop i dividend divisor (quot OR push_bit i 1, remainder - divisor)
         else udiv_loop i dividend divisor (quot, remainder))"

definition udiv :: "u32 \<Rightarrow> u32 \<Rightarrow> u32" where
  "udiv dividend divisor =
     (if divisor = 0 then 0 else fst (udiv_loop 32 dividend divisor (0, 0)))"

fun umod_loop :: "nat \<Rightarrow> u32 \<Rightarrow> u32 \<Rightarrow> u32 \<Rightarrow> u32" where
  "umod_loop 0 dividend divisor remainder = remainder"
| "umod_loop (Suc i) dividend divisor remainder =
     (let remainder = push_bit 1 remainder;
          remainder = remainder OR (drop_bit i dividend AND 1)
      in if divisor \<le> remainder
         then umod_loop i dividend divisor (remainder - divisor)
         else umod_loop i dividend divisor remainder)"

definition umod :: "u32 \<Rightarrow> u32 \<Rightarrow> u32" where
  "umod dividend divisor =
     (if divisor = 0 then 0 else umod_loop 32 dividend divisor 0)"

section \<open>Software multiplication (\<open>umul\<close>)\<close>

text \<open>The loop \<open>while (b)\<close>; it ends because every round halves \<open>b\<close>.\<close>

function umul_loop :: "u32 \<Rightarrow> u32 \<Rightarrow> u32 \<Rightarrow> u32" where
  "umul_loop a b result =
     (if b = 0 then result
      else umul_loop (push_bit 1 a) (drop_bit 1 b)
             (if b AND 1 \<noteq> 0 then result + a else result))"
  by pat_completeness auto

termination
proof (relation "measure (\<lambda>(a, b, result). unat b)")
  show "wf (measure (\<lambda>(a, b, result). unat b))"
    by simp
next
  fix a b result :: u32
  assume "b \<noteq> 0"
  then have "0 < unat b"
    by (simp add: unat_gt_0)
  moreover have "unat (drop_bit 1 b) = unat b div 2"
    by (simp add: drop_bit_eq_div unat_div)
  ultimately have "unat (drop_bit 1 b) < unat b"
    by simp
  then show "((push_bit 1 a, drop_bit 1 b, if b AND 1 \<noteq> 0 then result + a else result),
              (a, b, result)) \<in> measure (\<lambda>(a, b, result). unat b)"
    by simp
qed

declare umul_loop.simps [simp del]

definition umul :: "u32 \<Rightarrow> u32 \<Rightarrow> u32" where
  "umul a b = umul_loop a b 0"

section \<open>Seed table\<close>

definition rsqrt_table :: "u32 list" where
  "rsqrt_table =
     [65536, 46341, 32768, 23170, 16384, 11585, 8192, 5793, 4096, 2896, 2048,
      1448,  1024,  724,   512,   362,   256,   181,  128,  90,   64,   45,
      32,    23,    16,    11,    8,     6,     4,    3,    2,    1]"

text \<open>A table read \<open>rsqrt_table[i]\<close>; outside the array C gives no value.\<close>

definition table_read :: "u32 \<Rightarrow> fault + u32" where
  "table_read i =
     (if unat i < length rsqrt_table then Inr (rsqrt_table ! unat i)
      else Inl IndexOutOfRange)"

text \<open>The shifts \<open>v << n\<close> and \<open>v >> n\<close> by a computed amount; undefined from 32 on.\<close>

definition shl32 :: "u32 \<Rightarrow> u32 \<Rightarrow> fault + u32" where
  "shl32 v n = (if unat n < 32 then Inr (push_bit (unat n) v) else Inl ShiftOutOfRange)"

definition shr32 :: "u32 \<Rightarrow> u32 \<Rightarrow> fault + u32" where
  "shr32 v n = (if unat n < 32 then Inr (drop_bit (unat n) v) else Inl ShiftOutOfRange)"

section \<open>Double-width multiplication (\<open>mul32x32\<close>)\<close>

text \<open>The two out-parameters \<open>*hi\<close> and \<open>*lo\<close> are returned as the pair \<open>(hi, lo)\<close>.\<close>

definition mul32x32 :: "u32 \<Rightarrow> u32 \<Rightarrow> u32 \<times> u32" where
  "mul32x32 a b =
     (let a_lo = a AND 0xFFFF; a_hi = drop_bit 16 a;
          b_lo = b AND 0xFFFF; b_hi = drop_bit 16 b;
          p0 = a_lo * b_lo;
          p1 = a_lo * b_hi;
          p2 = a_hi * b_lo;
          p3 = a_hi * b_hi;
          mid = drop_bit 16 p0 + (p1 AND 0xFFFF) + (p2 AND 0xFFFF);
          lo_res = (p0 AND 0xFFFF) OR push_bit 16 mid;
          hi_res = p3 + drop_bit 16 p1 + drop_bit 16 p2 + drop_bit 16 mid
      in (hi_res, lo_res))"

section \<open>Newton step\<close>

definition newton_step_q16_inline :: "u32 \<Rightarrow> u32 \<Rightarrow> u32" where
  "newton_step_q16_inline y x =
     (let (y2_hi, y2_lo) = mul32x32 y y;
          (hi1, lo1) = mul32x32 x y2_hi;
          termA = push_bit 16 lo1;
          (hi2, lo2) = mul32x32 x y2_lo;
          termB = push_bit 16 hi2 OR drop_bit 16 lo2;
          xy2 = termA + termB;
          term = push_bit 16 3 - xy2;
          (hi, lo) = mul32x32 y term;
          lo_plus = lo + push_bit 16 1;
          hi_plus = hi + word_of_int (b2i (lo_plus < lo))
      in push_bit 15 hi_plus OR drop_bit 17 lo_plus)"

section \<open>Reciprocal square root (\<open>rsqrt\<close>)\<close>

text \<open>The exponent that \<open>rsqrt\<close> computes for its input, \<open>uint32_t exp = 31u - clz(x)\<close>.\<close>

definition rsqrt_exp :: "u32 \<Rightarrow> u32" where
  "rsqrt_exp x = 31 - clz x"

text \<open>The interpolated seed handed to the Newton step, from the exponent on.\<close>

definition rsqrt_seed :: "u32 \<Rightarrow> fault + u32" where
  "rsqrt_seed x =
     (let expn = rsqrt_exp x in
      case table_read expn of Inl e \<Rightarrow> Inl e | Inr y_base \<Rightarrow>
      case (if expn < 31 then table_read (expn + 1) else Inr 1) of Inl e \<Rightarrow> Inl e | Inr y_next \<Rightarrow>
      case shl32 1 expn of Inl e \<Rightarrow> Inl e | Inr one_shl \<Rightarrow>
      case (if 16 \<le> expn then shr32 (x - one_shl) (expn - 16) else shl32 (x - one_shl) (16 - expn)) of
        Inl e \<Rightarrow> Inl e
      | Inr fraction \<Rightarrow>
          Inr (y_base - drop_bit 16 (umul (y_base - y_next) fraction)))"

definition rsqrt :: "u32 \<Rightarrow> fault + u32" where
  "rsqrt x =
     (if x = 0 then Inr 0xFFFFFFFF
      else if x = 0xFFFFFFFF then Inr 1
      else case rsqrt_seed x of
             Inl e \<Rightarrow> Inl e
           | Inr y \<Rightarrow> Inr (newton_step_q16_inline y x))"

section \<open>The seed the specification asks for\<close>

text \<open>
  The specification describes the table by a formula: entry \<open>e\<close> is the real number
  \<open>2 ^ 16 / sqrt (2 ^ e)\<close> rounded to the nearest integer. This definition follows the
  specification's words; the table of the source is \<open>rsqrt_table\<close> above.
\<close>

definition spec_seed :: "nat \<Rightarrow> int" where
  "spec_seed e = round (2 ^ 16 / sqrt (2 ^ e) :: real)"

section \<open>The double-width product is exact\<close>

text \<open>Reading the 16-bit halves of a word and joining two halves, as natural numbers.\<close>

lemma mask16: "(0xFFFF::u32) = mask 16"
  by (simp add: mask_eq_exp_minus_1)

lemma unat_low16: "unat (w AND 0xFFFF :: u32) = unat w mod 65536"
  by (simp only: mask16 flip: take_bit_eq_mask) (simp add: take_bit_eq_mod unat_mod)

lemma unat_high16: "unat (drop_bit 16 w :: u32) = unat w div 65536"
  by (simp add: drop_bit_eq_div unat_div)

lemma unat_shl16: "unat (push_bit 16 m :: u32) = (unat m mod 65536) * 65536"
proof -
  have "unat (push_bit 16 m) = (unat m * 65536) mod (65536 * 65536)"
    by (simp add: push_bit_eq_mult unat_word_ariths)
  also have "\<dots> = (unat m mod 65536) * 65536"
    by (simp only: mult_mod_left)
  finally show ?thesis .
qed

lemma unat_join16:
  "unat ((p AND 0xFFFF) OR push_bit 16 m :: u32) = unat p mod 65536 + (unat m mod 65536) * 65536"
proof -
  have "(p AND mask 16) AND push_bit 16 m = 0"
    by (simp add: bit_eq_iff bit_simps)
  then have "(p AND 0xFFFF) OR push_bit 16 m = (p AND 0xFFFF) + push_bit 16 m"
    by (simp only: mask16 disjunctive_add_eq_or)
  moreover have "unat (p AND 0xFFFF) + unat (push_bit 16 m :: u32) < 2 ^ 32"
    by (simp add: unat_low16 unat_shl16)
  ultimately show ?thesis
    by (simp add: unat_add_lem [THEN iffD1] unat_low16 unat_shl16)
qed

lemma recombine16_aux:
  fixes q0 r0 q1 r1 q2 r2 qm rm p3 :: nat
  assumes "q0 + r1 + r2 = 65536 * qm + rm"
  shows "(p3 + q1 + q2 + qm) * 4294967296 + (r0 + rm * 65536)
         = 4294967296 * p3 + 65536 * (65536 * q1 + r1) + 65536 * (65536 * q2 + r2)
           + (65536 * q0 + r0)"
proof -
  have "65536 * (q0 + r1 + r2) = 65536 * (65536 * qm + rm)"
    by (simp only: assms)
  then show ?thesis
    by (simp add: algebra_simps)
qed

lemma recombine16:
  fixes p0 p1 p2 p3 mid :: nat
  assumes "mid = p0 div 65536 + p1 mod 65536 + p2 mod 65536"
  shows "(p3 + p1 div 65536 + p2 div 65536 + mid div 65536) * 4294967296
           + (p0 mod 65536 + (mid mod 65536) * 65536)
         = 4294967296 * p3 + 65536 * p1 + 65536 * p2 + p0"
proof -
  have "p0 div 65536 + p1 mod 65536 + p2 mod 65536 = 65536 * (mid div 65536) + mid mod 65536"
    by (simp only: assms mult_div_mod_eq)
  from recombine16_aux [OF this, of p3 "p1 div 65536" "p2 div 65536" "p0 mod 65536"]
  show ?thesis
    by (simp only: mult_div_mod_eq)
qed

lemma mul32x32_nat:
  fixes a b :: u32
  defines "al \<equiv> unat a mod 65536" and "ah \<equiv> unat a div 65536"
      and "bl \<equiv> unat b mod 65536" and "bh \<equiv> unat b div 65536"
  defines "mid \<equiv> (al * bl) div 65536 + (al * bh) mod 65536 + (ah * bl) mod 65536"
  shows "unat (fst (mul32x32 a b)) =
           ah * bh + (al * bh) div 65536 + (ah * bl) div 65536 + mid div 65536"
    and "unat (snd (mul32x32 a b)) = (al * bl) mod 65536 + (mid mod 65536) * 65536"
    and "unat (fst (mul32x32 a b)) * 2 ^ 32 + unat (snd (mul32x32 a b)) = unat a * unat b"
proof -
  have al: "al < 65536" and bl: "bl < 65536"
    by (simp_all add: al_def bl_def)
  have ah: "ah < 65536" and bh: "bh < 65536"
    using unsigned_less [of a, where 'a = nat] unsigned_less [of b, where 'a = nat]
    by (simp_all add: ah_def bh_def)
  have bound: "x * y \<le> 65535 * 65535" if "x < 65536" "y < 65536" for x y :: nat
    using that mult_le_mono [of x 65535 y 65535] by simp
  have p0: "unat ((a AND 0xFFFF) * (b AND 0xFFFF)) = al * bl"
    using bound [OF al bl]
    by (simp add: unat_mult_lem [THEN iffD1] unat_low16 al_def bl_def)
  have p1: "unat ((a AND 0xFFFF) * drop_bit 16 b) = al * bh"
    using bound [OF al bh]
    by (simp add: unat_mult_lem [THEN iffD1] unat_low16 unat_high16 al_def bh_def)
  have p2: "unat (drop_bit 16 a * (b AND 0xFFFF)) = ah * bl"
    using bound [OF ah bl]
    by (simp add: unat_mult_lem [THEN iffD1] unat_low16 unat_high16 ah_def bl_def)
  have p3: "unat (drop_bit 16 a * drop_bit 16 b) = ah * bh"
    using bound [OF ah bh]
    by (simp add: unat_mult_lem [THEN iffD1] unat_high16 ah_def bh_def)
  let ?mid = "drop_bit 16 ((a AND 0xFFFF) * (b AND 0xFFFF))
              + ((a AND 0xFFFF) * drop_bit 16 b AND 0xFFFF)
              + (drop_bit 16 a * (b AND 0xFFFF) AND 0xFFFF)"
  have mid_small: "mid < 3 * 65536"
    using bound [OF al bl] by (simp add: mid_def)
  have mid: "unat ?mid = mid"
  proof -
    have "unat (drop_bit 16 ((a AND 0xFFFF) * (b AND 0xFFFF))
              + ((a AND 0xFFFF) * drop_bit 16 b AND 0xFFFF)) =
          (al * bl) div 65536 + (al * bh) mod 65536"
      using mid_small
      by (subst unat_add_lem [THEN iffD1]) (simp_all add: unat_high16 unat_low16 p0 p1 mid_def)
    then show ?thesis
      using mid_small
      by (subst unat_add_lem [THEN iffD1]) (simp_all add: unat_low16 p2 mid_def)
  qed
  have prod: "unat a * unat b =
      4294967296 * (ah * bh) + 65536 * (al * bh) + 65536 * (ah * bl) + al * bl"
  proof -
    have "unat a = 65536 * ah + al" "unat b = 65536 * bh + bl"
      by (simp_all add: al_def ah_def bl_def bh_def)
    then show ?thesis
      by (simp add: algebra_simps)
  qed
  let ?H = "ah * bh + (al * bh) div 65536 + (ah * bl) div 65536 + mid div 65536"
  let ?L = "(al * bl) mod 65536 + (mid mod 65536) * 65536"
  have total: "?H * 2 ^ 32 + ?L = unat a * unat b"
    using recombine16 [of mid "al * bl" "al * bh" "ah * bl" "ah * bh"] prod
    by (simp add: mid_def)
  have "unat a * unat b < 2 ^ 32 * 2 ^ 32"
    using unsigned_less [of a, where 'a = nat] unsigned_less [of b, where 'a = nat]
    by (intro mult_strict_mono) simp_all
  with total have H_small: "?H < 2 ^ 32"
    by simp
  show hi: "unat (fst (mul32x32 a b)) = ?H"
  proof -
    have s1: "unat (drop_bit 16 a * drop_bit 16 b + drop_bit 16 ((a AND 0xFFFF) * drop_bit 16 b))
              = ah * bh + (al * bh) div 65536"
      using H_small
      by (subst unat_add_lem [THEN iffD1]) (simp_all add: unat_high16 p1 p3)
    have s2: "unat (drop_bit 16 a * drop_bit 16 b + drop_bit 16 ((a AND 0xFFFF) * drop_bit 16 b)
                    + drop_bit 16 (drop_bit 16 a * (b AND 0xFFFF)))
              = ah * bh + (al * bh) div 65536 + (ah * bl) div 65536"
      using H_small
      by (subst unat_add_lem [THEN iffD1]) (simp_all add: s1 unat_high16 p2)
    have "unat (drop_bit 16 a * drop_bit 16 b + drop_bit 16 ((a AND 0xFFFF) * drop_bit 16 b)
                    + drop_bit 16 (drop_bit 16 a * (b AND 0xFFFF)) + drop_bit 16 ?mid) = ?H"
      using H_small
      by (subst unat_add_lem [THEN iffD1]) (simp_all add: s2 unat_high16 mid)
    then show ?thesis
      by (simp add: mul32x32_def Let_def)
  qed
  show lo: "unat (snd (mul32x32 a b)) = ?L"
    by (simp add: mul32x32_def Let_def unat_join16 p0 mid)
  show "unat (fst (mul32x32 a b)) * 2 ^ 32 + unat (snd (mul32x32 a b)) = unat a * unat b"
    by (simp only: hi lo total)
qed

lemma mul32x32_eq:
  "mul32x32 a b =
     (word_of_nat (unat a * unat b div 2 ^ 32), word_of_nat (unat a * unat b mod 2 ^ 32))"
proof -
  let ?hi = "fst (mul32x32 a b)" and ?lo = "snd (mul32x32 a b)"
  have sum: "unat ?hi * 2 ^ 32 + unat ?lo = unat a * unat b"
    by (rule mul32x32_nat(3))
  have lo: "unat ?lo < 2 ^ 32"
    using unsigned_less [of ?lo, where 'a = nat] by simp
  have "unat a * unat b div 2 ^ 32 = unat ?hi" "unat a * unat b mod 2 ^ 32 = unat ?lo"
    using lo by (simp_all flip: sum)
  then have "word_of_nat (unat a * unat b div 2 ^ 32) = ?hi"
            "word_of_nat (unat a * unat b mod 2 ^ 32) = ?lo"
    by simp_all
  then show ?thesis
    by (simp add: prod_eq_iff)
qed

text \<open>
  Claim C1. For every pair of 32-bit unsigned values \<open>a\<close> and \<open>b\<close>, the pair
  \<open>(hi, lo)\<close> returned by \<open>mul32x32 a b\<close> satisfies \<open>hi * 2 ^ 32 + lo = a * b\<close>, the
  product taken over the natural numbers, so nothing is truncated.
\<close>

theorem mul32x32_exact:
  "unat (fst (mul32x32 a b)) * 2 ^ 32 + unat (snd (mul32x32 a b)) = unat a * unat b"
  by (rule mul32x32_nat(3))

section \<open>Software multiplication is multiplication modulo \<open>2 ^ 32\<close>\<close>

lemma halve_double: "2 * drop_bit 1 b + (b AND 1) = (b::u32)"
  using bits_ident [of 1 b] by (simp add: take_bit_eq_mask push_bit_eq_mult mult.commute)

text \<open>The loop invariant: what is still to be added to \<open>result\<close> is \<open>a * b\<close>.\<close>

lemma umul_loop_eq: "umul_loop a b result = result + a * b"
proof (induction a b result rule: umul_loop.induct)
  case (1 a b result)
  show ?case
  proof (cases "b = 0")
    case True
    then show ?thesis by (simp add: umul_loop.simps)
  next
    case False
    have and1: "b AND 1 = 0 \<or> b AND 1 = 1"
      by (simp add: and_one_eq mod_2_eq_odd)
    have "umul_loop a b result =
            (if b AND 1 \<noteq> 0 then result + a else result) + push_bit 1 a * drop_bit 1 b"
      using False 1 by (subst umul_loop.simps) simp
    also have "\<dots> = result + a * (2 * drop_bit 1 b + (b AND 1))"
      using and1 by (auto simp: push_bit_eq_mult algebra_simps)
    also have "\<dots> = result + a * b"
      by (simp only: halve_double)
    finally show ?thesis .
  qed
qed

lemma umul_eq_times: "umul a b = a * b"
  by (simp add: umul_def umul_loop_eq)

text \<open>
  Claim C5. For every pair of 32-bit unsigned values \<open>a\<close> and \<open>b\<close>, \<open>umul a b\<close> is the
  product modulo \<open>2 ^ 32\<close>: it is the wrap-around product of the two words, and read as
  a natural number it is \<open>(a * b) mod 2 ^ 32\<close>.
\<close>

theorem umul_wraparound_product:
  "umul a b = a * b \<and> unat (umul a b) = (unat a * unat b) mod 2 ^ 32"
  by (simp add: umul_def umul_loop_eq unat_word_ariths)

section \<open>Division by zero\<close>

text \<open>
  Claim C8. For every dividend \<open>a\<close>, \<open>udiv a 0 = 0\<close> and \<open>umod a 0 = 0\<close>: both
  functions are total and answer a zero divisor with the default 0.
\<close>

theorem udiv_umod_zero_divisor: "udiv a 0 = 0 \<and> umod a 0 = 0"
  by (simp add: udiv_def umod_def)

section \<open>Long division\<close>

lemma unat_drop_bit_div: "unat (drop_bit n w) = unat w div 2 ^ n"
  by (subst unat_drop_bit_eq) (rule drop_bit_eq_div)

lemma unat_add_small:
  fixes x y :: u32
  shows "unat x + unat y < 2 ^ 32 \<Longrightarrow> unat (x + y) = unat x + unat y"
  using unat_add_lem [of x y] by simp

lemma unat_pow2:
  assumes "i < 32"
  shows "unat (2 ^ i :: u32) = 2 ^ i"
proof -
  have "(2::nat) ^ i < 2 ^ 32"
    using assms by (intro power_strict_increasing) simp_all
  moreover have "unat (word_of_nat (2 ^ i) :: u32) = 2 ^ i mod 2 ^ 32"
    by (simp only: unat_of_nat) simp
  ultimately show ?thesis
    by simp
qed

lemma unat_shift_in_bit:
  fixes r w :: u32
  assumes "unat r < 2 ^ 31"
  shows "unat (push_bit 1 r OR (drop_bit i w AND 1)) = 2 * unat r + unat w div 2 ^ i mod 2"
proof -
  have disj: "push_bit 1 r OR (drop_bit i w AND 1) = push_bit 1 r + (drop_bit i w AND 1)"
    by (cases "odd (drop_bit i w)") (simp_all add: and_one_eq mod_2_eq_odd or_one_eq)
  have r2: "unat (push_bit 1 r) = 2 * unat r"
    using assms by (simp add: push_bit_eq_mult unat_word_ariths)
  have b: "unat (drop_bit i w AND 1) = unat w div 2 ^ i mod 2"
    by (simp add: and_one_eq unat_mod unat_drop_bit_div)
  have "unat w div 2 ^ i mod 2 < 2"
    by simp
  with assms have "unat (push_bit 1 r) + unat (drop_bit i w AND 1) < 2 ^ 32"
    by (simp only: r2 b) simp
  then have "unat (push_bit 1 r + (drop_bit i w AND 1)) =
               unat (push_bit 1 r) + unat (drop_bit i w AND 1)"
    by (rule unat_add_small)
  then show ?thesis
    by (simp only: disj r2 b)
qed

lemma unat_set_quot_bit:
  fixes q :: u32
  assumes "unat q = k * 2 ^ Suc i" "i < 32"
  shows "unat (q OR push_bit i 1) = (2 * k + 1) * 2 ^ i"
proof -
  have "unat (push_bit i (1::u32)) = 2 ^ i"
    using assms(2) by (simp add: unat_pow2)
  then have "unat (q OR push_bit i 1) = push_bit (Suc i) k OR push_bit i 1"
    by (simp add: unsigned_or_eq assms(1) push_bit_eq_mult)
  also have "\<dots> = push_bit (Suc i) k + push_bit i 1"
  proof (rule disjunctive_add_eq_or [symmetric])
    have "push_bit (Suc i) k AND push_bit i 1 = push_bit i (k * 2 AND 1)"
      by (simp only: push_bit_Suc push_bit_and)
    also have "k * 2 AND 1 = 0"
      by (simp add: and_one_eq)
    finally show "push_bit (Suc i) k AND push_bit i 1 = 0"
      by simp
  qed
  also have "\<dots> = (2 * k + 1) * 2 ^ i"
    by (simp add: push_bit_eq_mult algebra_simps)
  finally show ?thesis .
qed

lemma div_mod_unique:
  fixes n r q d :: nat
  assumes "n = r + q * d" "r < d"
  shows "n div d = q \<and> n mod d = r"
  using assms by simp

text \<open>One step of restoring division on natural numbers.\<close>

lemma long_division_step:
  fixes t d bit :: nat
  assumes "0 < d" "bit < 2"
  shows "2 * (t mod d) + bit < 2 * d"
    and "d \<le> 2 * (t mod d) + bit \<Longrightarrow>
           (2 * t + bit) div d = 2 * (t div d) + 1 \<and> (2 * t + bit) mod d = 2 * (t mod d) + bit - d"
    and "\<not> d \<le> 2 * (t mod d) + bit \<Longrightarrow>
           (2 * t + bit) div d = 2 * (t div d) \<and> (2 * t + bit) mod d = 2 * (t mod d) + bit"
proof -
  let ?q = "t div d" and ?r = "t mod d"
  have r: "?r < d"
    using assms(1) by simp
  then show small: "2 * ?r + bit < 2 * d"
    using assms(2) by linarith
  have "2 * t + bit = 2 * (?q * d + ?r) + bit"
    by simp
  also have "\<dots> = (2 * ?r + bit) + (2 * ?q) * d"
    by (simp only: distrib_left mult.assoc add.commute add.left_commute)
  finally have t: "2 * t + bit = (2 * ?r + bit) + (2 * ?q) * d" .
  {
    assume ge: "d \<le> 2 * ?r + bit"
    have "2 * t + bit = (2 * ?r + bit - d) + (2 * ?q + 1) * d"
      using ge t by (simp add: algebra_simps)
    moreover have "2 * ?r + bit - d < d"
      using small ge by linarith
    ultimately show "(2 * t + bit) div d = 2 * ?q + 1 \<and> (2 * t + bit) mod d = 2 * ?r + bit - d"
      by (rule div_mod_unique)
  }
  {
    assume lt: "\<not> d \<le> 2 * ?r + bit"
    then have "2 * ?r + bit < d"
      by simp
    with t show "(2 * t + bit) div d = 2 * ?q \<and> (2 * t + bit) mod d = 2 * ?r + bit"
      by (rule div_mod_unique)
  }
qed

text \<open>
  The invariant of the division loop: before the iteration at index \<open>n - 1\<close> the
  remainder and the quotient are those of the dividend's bits above position \<open>n\<close>.
\<close>

lemma udiv_loop_nat:
  fixes dividend divisor quot remainder :: u32
  assumes "divisor \<noteq> 0" "n \<le> 32"
    and "unat remainder = unat dividend div 2 ^ n mod unat divisor"
    and "unat quot = unat dividend div 2 ^ n div unat divisor * 2 ^ n"
  shows "unat (fst (udiv_loop n dividend divisor (quot, remainder)))
           = unat dividend div unat divisor \<and>
         unat (snd (udiv_loop n dividend divisor (quot, remainder)))
           = unat dividend mod unat divisor"
  using assms
proof (induction n arbitrary: quot remainder)
  case 0
  then show ?case by simp
next
  case (Suc i)
  let ?D = "unat dividend" and ?d = "unat divisor"
  let ?t = "?D div 2 ^ Suc i" and ?bit = "?D div 2 ^ i mod 2"
  have d: "0 < ?d"
    using Suc.prems(1) by (simp add: unat_gt_0)
  have i: "i < 32" and i': "i \<le> 32"
    using Suc.prems(2) by simp_all
  have "?D < 2 ^ 32"
    using unsigned_less [of dividend, where 'a = nat] by simp
  then have "?D div 2 < 2 ^ 31"
    by simp
  moreover have "?t = ?D div 2 div 2 ^ i"
    by (simp only: power_Suc div_mult2_eq)
  ultimately have t_small: "?t < 2 ^ 31"
    using div_le_dividend [of "?D div 2" "2 ^ i"] by linarith
  have rem_small: "unat remainder < 2 ^ 31"
    using Suc.prems(3) t_small mod_less_eq_dividend [of ?t ?d] by linarith
  have "?t = ?D div 2 ^ i div 2"
    by (simp only: power_Suc2 div_mult2_eq)
  then have split: "?D div 2 ^ i = 2 * ?t + ?bit"
    by (simp only: mult_div_mod_eq)
  define r2 where "r2 = push_bit 1 remainder OR (drop_bit i dividend AND 1)"
  have r2: "unat r2 = 2 * (?t mod ?d) + ?bit"
    using unat_shift_in_bit [OF rem_small, of i dividend] by (simp only: r2_def Suc.prems(3))
  have bit: "?bit < 2"
    by simp
  note step = long_division_step [OF d bit, of ?t]
  show ?case
  proof (cases "divisor \<le> r2")
    case True
    then have ge: "?d \<le> 2 * (?t mod ?d) + ?bit"
      by (simp only: word_le_nat_alt r2)
    have "unat (r2 - divisor) = unat r2 - ?d"
      using True by (rule unat_sub)
    moreover from step(2) [OF ge]
    have now: "?D div 2 ^ i div ?d = 2 * (?t div ?d) + 1"
              "?D div 2 ^ i mod ?d = 2 * (?t mod ?d) + ?bit - ?d"
      by (simp_all only: flip: split)
    ultimately have rem': "unat (r2 - divisor) = ?D div 2 ^ i mod ?d"
      by (simp only: r2)
    have "unat (quot OR push_bit i 1) = (2 * (?t div ?d) + 1) * 2 ^ i"
      using Suc.prems(4) i by (rule unat_set_quot_bit)
    then have quot': "unat (quot OR push_bit i 1) = ?D div 2 ^ i div ?d * 2 ^ i"
      by (simp only: now)
    have "udiv_loop (Suc i) dividend divisor (quot, remainder) =
            udiv_loop i dividend divisor (quot OR push_bit i 1, r2 - divisor)"
      using True by (simp add: r2_def Let_def)
    then show ?thesis
      using Suc.IH [OF Suc.prems(1) i' rem' quot'] by (simp only:)
  next
    case False
    then have lt: "\<not> ?d \<le> 2 * (?t mod ?d) + ?bit"
      by (simp only: word_le_nat_alt r2 not_False_eq_True)
    from step(3) [OF lt]
    have now: "?D div 2 ^ i div ?d = 2 * (?t div ?d)"
              "?D div 2 ^ i mod ?d = 2 * (?t mod ?d) + ?bit"
      by (simp_all only: flip: split)
    have rem': "unat r2 = ?D div 2 ^ i mod ?d"
      by (simp only: r2 now)
    have "unat quot = 2 * (?t div ?d) * 2 ^ i"
      using Suc.prems(4) by (simp add: algebra_simps)
    then have quot': "unat quot = ?D div 2 ^ i div ?d * 2 ^ i"
      by (simp only: now)
    have "udiv_loop (Suc i) dividend divisor (quot, remainder) =
            udiv_loop i dividend divisor (quot, r2)"
      using False by (simp add: r2_def Let_def)
    then show ?thesis
      using Suc.IH [OF Suc.prems(1) i' rem' quot'] by (simp only:)
  qed
qed

text \<open>The modulo loop is the division loop without the quotient.\<close>

lemma umod_loop_snd:
  "umod_loop n dividend divisor remainder =
     snd (udiv_loop n dividend divisor (quot, remainder))"
  by (induction n arbitrary: quot remainder) (simp_all add: Let_def)

lemma udiv_nat:
  assumes "divisor \<noteq> 0"
  shows "unat (udiv dividend divisor) = unat dividend div unat divisor"
proof -
  have "unat dividend < 2 ^ 32"
    using unsigned_less [of dividend, where 'a = nat] by simp
  then have "unat dividend div 2 ^ 32 = 0"
    by simp
  then show ?thesis
    using udiv_loop_nat [OF assms, of 32 0 dividend 0] assms by (simp add: udiv_def)
qed

lemma umod_nat:
  assumes "divisor \<noteq> 0"
  shows "unat (umod dividend divisor) = unat dividend mod unat divisor"
proof -
  have "unat dividend < 2 ^ 32"
    using unsigned_less [of dividend, where 'a = nat] by simp
  then have "unat dividend div 2 ^ 32 = 0"
    by simp
  then show ?thesis
    using udiv_loop_nat [OF assms, of 32 0 dividend 0] assms
    by (simp add: umod_def umod_loop_snd [where quot = 0])
qed

text \<open>
  Claim C4. For every dividend \<open>a\<close> and every nonzero divisor \<open>b\<close>,
  \<open>udiv a b * b + umod a b = a\<close> with the product and the sum taken over the natural
  numbers, \<open>udiv a b\<close> is the floor of \<open>a / b\<close>, \<open>umod a b\<close> is \<open>a mod b\<close>, and both agree
  with the unsigned division and modulo of 32-bit words.
\<close>

theorem udiv_umod_correct:
  assumes "b \<noteq> 0"
  shows "unat (udiv a b) * unat b + unat (umod a b) = unat a \<and>
         unat (udiv a b) = unat a div unat b \<and> unat (umod a b) = unat a mod unat b \<and>
         udiv a b = a div b \<and> umod a b = a mod b"
proof -
  have q: "unat (udiv a b) = unat a div unat b" and r: "unat (umod a b) = unat a mod unat b"
    using assms by (rule udiv_nat, rule umod_nat)
  have "unat (udiv a b) = unat (a div b)" "unat (umod a b) = unat (a mod b)"
    by (simp_all only: q r unat_div unat_mod)
  then have "udiv a b = a div b" "umod a b = a mod b"
    by (simp_all only: word_unat_eq_iff)
  then show ?thesis
    using q r by simp
qed

theorem udiv_umod_correct_witness:
  "(7::u32) \<noteq> 0 \<and> udiv 100 7 = 14 \<and> umod 100 7 = 2 \<and>
   unat (udiv 100 7) * unat (7::u32) + unat (umod 100 7) = unat (100::u32)"
  using udiv_umod_correct [of 7 100] by simp

section \<open>Leading zeros\<close>

text \<open>
  One stage of the binary search: a value below \<open>2 ^ (32 - k)\<close> is shifted left by \<open>k\<close>
  without losing a bit, and afterwards the value is at least \<open>2 ^ (32 - k)\<close>.
\<close>

lemma clz_stage:
  fixes y :: u32
  assumes k: "0 < k" "k \<le> 16" and lower: "2 ^ (32 - 2 * k) \<le> unat y"
  defines "c \<equiv> (if y < 2 ^ (32 - k) then k else 0)"
  shows "unat (push_bit c y) = unat y * 2 ^ c" and "2 ^ (32 - k) \<le> unat (push_bit c y)"
proof -
  have p: "unat (2 ^ (32 - k) :: u32) = 2 ^ (32 - k)"
    using k by (intro unat_pow2) simp
  have both: "unat (push_bit c y) = unat y * 2 ^ c \<and> 2 ^ (32 - k) \<le> unat (push_bit c y)"
  proof (cases "y < 2 ^ (32 - k)")
    case True
    then have small: "unat y < 2 ^ (32 - k)"
      by (simp only: word_less_nat_alt p)
    have c: "c = k"
      using True by (simp add: c_def)
    have "unat y * 2 ^ k < 2 ^ (32 - k) * 2 ^ k"
      using small by simp
    also have "(2::nat) ^ (32 - k) * 2 ^ k = 2 ^ 32"
      using k by (simp flip: power_add)
    finally have "unat y * 2 ^ k < 2 ^ 32" .
    moreover have "unat (2 ^ k :: u32) = 2 ^ k"
      using k by (intro unat_pow2) simp
    ultimately have u: "unat (push_bit k y) = unat y * 2 ^ k"
      by (simp add: push_bit_eq_mult unat_word_ariths)
    have "(2::nat) ^ (32 - 2 * k) * 2 ^ k = 2 ^ (32 - k)"
      using k by (simp flip: power_add)
    moreover have "2 ^ (32 - 2 * k) * 2 ^ k \<le> unat y * 2 ^ k"
      using lower by simp
    ultimately have "2 ^ (32 - k) \<le> unat y * 2 ^ k"
      by simp
    then show ?thesis
      by (simp only: c u)
  next
    case False
    then have "2 ^ (32 - k) \<le> unat y"
      by (simp only: word_less_nat_alt p not_less)
    moreover have "c = 0"
      using False by (simp add: c_def)
    ultimately show ?thesis
      by simp
  qed
  from both show "unat (push_bit c y) = unat y * 2 ^ c" ..
  from both show "2 ^ (32 - k) \<le> unat (push_bit c y)" ..
qed

lemma clz_bounds:
  assumes "x \<noteq> 0"
  shows "unat (clz x) \<le> 31 \<and>
         2 ^ 31 \<le> unat x * 2 ^ unat (clz x) \<and> unat x * 2 ^ unat (clz x) < 2 ^ 32"
proof -
  define c1 :: nat where "c1 = (if x < 0x00010000 then 16 else 0)"
  define x1 where "x1 = push_bit c1 x"
  define c2 :: nat where "c2 = (if x1 < 0x01000000 then 8 else 0)"
  define x2 where "x2 = push_bit c2 x1"
  define c3 :: nat where "c3 = (if x2 < 0x10000000 then 4 else 0)"
  define x3 where "x3 = push_bit c3 x2"
  define c4 :: nat where "c4 = (if x3 < 0x40000000 then 2 else 0)"
  define x4 where "x4 = push_bit c4 x3"
  define c5 :: nat where "c5 = (if x4 < 0x80000000 then 1 else 0)"
  define x5 where "x5 = push_bit c5 x4"
  have i1: "push_bit 4 (b2i (x < 0x00010000)) = int c1"
   and i2: "push_bit 3 (b2i (x1 < 0x01000000)) = int c2"
   and i3: "push_bit 2 (b2i (x2 < 0x10000000)) = int c3"
   and i4: "push_bit 1 (b2i (x3 < 0x40000000)) = int c4"
   and i5: "b2i (x4 < 0x80000000) = int c5"
    by (simp_all add: b2i_def c1_def c2_def c3_def c4_def c5_def)
  have clz: "clz x = word_of_int (0 + int c1 + int c2 + int c3 + int c4 + int c5 + b2i (x5 = 0))"
    unfolding clz_def Let_def
    by (simp only: i1 nat_int flip: x1_def) (simp only: i2 i3 i4 i5 nat_int flip: x2_def x3_def x4_def x5_def)
  have l0: "2 ^ (32 - 2 * 16) \<le> unat x"
    using assms by (simp add: Suc_le_eq unat_gt_0)
  have s1: "unat x1 = unat x * 2 ^ c1" "2 ^ (32 - 2 * 8) \<le> unat x1"
    using clz_stage [of 16 x, OF _ _ l0] by (simp_all add: x1_def c1_def)
  have s2: "unat x2 = unat x1 * 2 ^ c2" "2 ^ (32 - 2 * 4) \<le> unat x2"
    using clz_stage [of 8 x1, OF _ _ s1(2)] by (simp_all add: x2_def c2_def)
  have s3: "unat x3 = unat x2 * 2 ^ c3" "2 ^ (32 - 2 * 2) \<le> unat x3"
    using clz_stage [of 4 x2, OF _ _ s2(2)] by (simp_all add: x3_def c3_def)
  have s4: "unat x4 = unat x3 * 2 ^ c4" "2 ^ (32 - 2 * 1) \<le> unat x4"
    using clz_stage [of 2 x3, OF _ _ s3(2)] by (simp_all add: x4_def c4_def)
  have s5: "unat x5 = unat x4 * 2 ^ c5" "2 ^ (32 - 1) \<le> unat x5"
    using clz_stage [of 1 x4, OF _ _ s4(2)] by (simp_all add: x5_def c5_def)
  define r where "r = c1 + c2 + c3 + c4 + c5"
  have r: "r \<le> 31"
    by (simp add: r_def c1_def c2_def c3_def c4_def c5_def)
  have x5: "unat x5 = unat x * 2 ^ r"
    by (simp only: s1(1) s2(1) s3(1) s4(1) s5(1) r_def power_add mult.assoc)
  have "x5 \<noteq> 0"
    using s5(2) by (auto simp: unat_eq_0)
  then have "clz x = word_of_nat r"
    by (simp add: clz r_def b2i_def)
  then have u: "unat (clz x) = r"
    using r by (simp add: unat_of_nat)
  have "unat x5 < 2 ^ 32"
    using unsigned_less [of x5, where 'a = nat] by simp
  with s5(2) r show ?thesis
    by (simp add: u x5)
qed

lemma clz_0: "clz 0 = 32"
  unfolding clz_def Let_def b2i_def by simp

lemma clz_1: "clz 1 = 31"
  unfolding clz_def Let_def b2i_def by simp

lemma clz_max: "clz 0xFFFFFFFF = 0"
  unfolding clz_def Let_def b2i_def by simp

lemma clz_position:
  assumes "x \<noteq> 0"
  shows "unat (clz x) \<le> 31"
    and "2 ^ (31 - unat (clz x)) \<le> unat x"
    and "unat x < 2 ^ (32 - unat (clz x))"
proof -
  let ?r = "unat (clz x)"
  from clz_bounds [OF assms]
  have r: "?r \<le> 31" and lo: "2 ^ 31 \<le> unat x * 2 ^ ?r" and hi: "unat x * 2 ^ ?r < 2 ^ 32"
    by simp_all
  show "?r \<le> 31"
    by (rule r)
  have "(2::nat) ^ (31 - ?r) * 2 ^ ?r = 2 ^ 31"
    using r by (simp flip: power_add)
  with lo have "2 ^ (31 - ?r) * 2 ^ ?r \<le> unat x * 2 ^ ?r"
    by simp
  then show "2 ^ (31 - ?r) \<le> unat x"
    by simp
  have "(2::nat) ^ (32 - ?r) * 2 ^ ?r = 2 ^ 32"
    using r by (simp flip: power_add)
  with hi have "unat x * 2 ^ ?r < 2 ^ (32 - ?r) * 2 ^ ?r"
    by simp
  then show "unat x < 2 ^ (32 - ?r)"
    by simp
qed

text \<open>
  Claim C6. For every nonzero \<open>x\<close>, \<open>clz x\<close> is the number of leading zero bits of \<open>x\<close>:
  it lies in \<open>0..31\<close> and \<open>2 ^ (31 - clz x) \<le> x < 2 ^ (32 - clz x)\<close>. Moreover
  \<open>clz 0 = 32\<close>, \<open>clz 1 = 31\<close> and \<open>clz 0xFFFFFFFF = 0\<close>.
\<close>

theorem clz_leading_zeros:
  "(x \<noteq> 0 \<longrightarrow>
      unat (clz x) \<le> 31 \<and> 2 ^ (31 - unat (clz x)) \<le> unat x \<and>
      unat x < 2 ^ (32 - unat (clz x))) \<and>
   clz 0 = 32 \<and> clz 1 = 31 \<and> clz 0xFFFFFFFF = 0"
  using clz_position [of x] by (simp add: clz_0 clz_1 clz_max)

theorem clz_leading_zeros_witness:
  "(5::u32) \<noteq> 0 \<and> unat (clz 5) \<le> 31 \<and> 2 ^ (31 - unat (clz 5)) \<le> unat (5::u32) \<and>
   unat (5::u32) < 2 ^ (32 - unat (clz 5))"
  using clz_leading_zeros [of 5] by simp

section \<open>The exponent, the table reads and the shifts of \<open>rsqrt\<close>\<close>

lemma rsqrt_exp_nat:
  assumes "x \<noteq> 0"
  shows "unat (rsqrt_exp x) = 31 - unat (clz x)"
    and "unat (rsqrt_exp x) \<le> 31"
    and "2 ^ unat (rsqrt_exp x) \<le> unat x"
    and "unat x < 2 ^ Suc (unat (rsqrt_exp x))"
proof -
  note pos = clz_position [OF assms]
  have "clz x \<le> 31"
    using pos(1) by (simp add: word_le_nat_alt)
  then have "unat (31 - clz x) = unat (31 :: u32) - unat (clz x)"
    by (rule unat_sub)
  then show e: "unat (rsqrt_exp x) = 31 - unat (clz x)"
    by (simp add: rsqrt_exp_def)
  then show "unat (rsqrt_exp x) \<le> 31"
    by simp
  show "2 ^ unat (rsqrt_exp x) \<le> unat x"
    using pos(2) by (simp only: e)
  have "Suc (31 - unat (clz x)) = 32 - unat (clz x)"
    using pos(1) by simp
  then show "unat x < 2 ^ Suc (unat (rsqrt_exp x))"
    using pos(3) by (simp only: e)
qed

text \<open>The exponent is the only number \<open>e\<close> with \<open>2 ^ e \<le> x < 2 ^ (e + 1)\<close>.\<close>

lemma rsqrt_exp_unique:
  assumes "2 ^ e \<le> unat x" "unat x < 2 ^ Suc e"
  shows "unat (rsqrt_exp x) = e"
proof -
  have "x \<noteq> 0"
    using assms(1) by (auto simp: unat_eq_0)
  note ex = rsqrt_exp_nat [OF this]
  let ?f = "unat (rsqrt_exp x)"
  have "(2::nat) ^ e < 2 ^ Suc ?f"
    using assms(1) ex(4) by linarith
  then have "e < Suc ?f"
    by (rule power_less_imp_less_exp [rotated]) simp
  moreover have "(2::nat) ^ ?f < 2 ^ Suc e"
    using assms(2) ex(3) by linarith
  then have "?f < Suc e"
    by (rule power_less_imp_less_exp [rotated]) simp
  ultimately show ?thesis
    by simp
qed

lemma table_read_in_range:
  assumes "unat i \<le> 31"
  shows "table_read i = Inr (rsqrt_table ! unat i)"
  using assms by (simp add: table_read_def rsqrt_table_def)

lemma rsqrt_shift_amounts:
  fixes expn :: u32
  assumes "unat expn \<le> 31"
  shows "expn < 31 \<Longrightarrow> unat (expn + 1) = unat expn + 1 \<and> unat (expn + 1) \<le> 31"
    and "16 \<le> expn \<Longrightarrow> unat (expn - 16) = unat expn - 16 \<and> unat (expn - 16) \<le> 15"
    and "\<not> 16 \<le> expn \<Longrightarrow>
           unat (16 - expn) = 16 - unat expn \<and> 1 \<le> unat (16 - expn) \<and> unat (16 - expn) \<le> 16"
proof -
  {
    assume "expn < 31"
    then have "unat expn < 31"
      by (simp add: word_less_nat_alt)
    moreover from this have "unat (expn + 1) = unat expn + unat (1 :: u32)"
      by (intro unat_add_small) simp
    ultimately show "unat (expn + 1) = unat expn + 1 \<and> unat (expn + 1) \<le> 31"
      by simp
  }
  {
    assume ge: "16 \<le> expn"
    then have "unat (expn - 16) = unat expn - unat (16 :: u32)"
      by (rule unat_sub)
    then show "unat (expn - 16) = unat expn - 16 \<and> unat (expn - 16) \<le> 15"
      using assms by simp
  }
  {
    assume "\<not> 16 \<le> expn"
    then have lt: "unat expn < 16"
      by (simp add: word_le_nat_alt)
    then have "expn \<le> 16"
      by (simp add: word_le_nat_alt)
    then have "unat (16 - expn) = unat (16 :: u32) - unat expn"
      by (rule unat_sub)
    then show "unat (16 - expn) = 16 - unat expn \<and> 1 \<le> unat (16 - expn) \<and> unat (16 - expn) \<le> 16"
      using lt by simp
  }
qed

text \<open>
  With the exponent in range no fault branch of the seed computation is taken; what
  remains is the interpolation formula.
\<close>

lemma rsqrt_seed_eq:
  assumes "x \<noteq> 0"
  defines "e \<equiv> unat (rsqrt_exp x)"
  defines "y_base \<equiv> rsqrt_table ! e"
  defines "y_next \<equiv> (if e < 31 then rsqrt_table ! (e + 1) else 1)"
  defines "fraction \<equiv> (if 16 \<le> e then drop_bit (e - 16) (x - 2 ^ e)
                         else push_bit (16 - e) (x - 2 ^ e))"
  shows "rsqrt_seed x = Inr (y_base - drop_bit 16 (umul (y_base - y_next) fraction))"
proof -
  note ex = rsqrt_exp_nat [OF assms(1)]
  note sh = rsqrt_shift_amounts [OF ex(2)]
  have lt31: "rsqrt_exp x < 31 \<longleftrightarrow> e < 31" and ge16: "16 \<le> rsqrt_exp x \<longleftrightarrow> 16 \<le> e"
    by (simp_all add: word_less_nat_alt word_le_nat_alt e_def)
  have base: "table_read (rsqrt_exp x) = Inr y_base"
    using table_read_in_range [OF ex(2)] by (simp only: y_base_def e_def)
  have "table_read (rsqrt_exp x + 1) = Inr (rsqrt_table ! (e + 1))" if "rsqrt_exp x < 31"
  proof -
    from sh(1) [OF that]
    have a: "unat (rsqrt_exp x + 1) = e + 1" and b: "unat (rsqrt_exp x + 1) \<le> 31"
      by (simp_all add: e_def)
    show ?thesis
      using table_read_in_range [OF b] by (simp only: a)
  qed
  then have "next": "(if rsqrt_exp x < 31 then table_read (rsqrt_exp x + 1) else Inr 1) = Inr y_next"
    by (simp add: y_next_def lt31)
  have one: "shl32 1 (rsqrt_exp x) = Inr (2 ^ e)"
    using ex(2) by (simp add: shl32_def e_def)
  have frac: "(if 16 \<le> rsqrt_exp x then shr32 (x - 2 ^ e) (rsqrt_exp x - 16)
               else shl32 (x - 2 ^ e) (16 - rsqrt_exp x)) = Inr fraction"
  proof (cases "16 \<le> rsqrt_exp x")
    case True
    with sh(2) [OF True] show ?thesis
      by (simp add: shr32_def fraction_def ge16 e_def)
  next
    case False
    with sh(3) [OF False] show ?thesis
      by (simp add: shl32_def fraction_def ge16 e_def)
  qed
  show ?thesis
    unfolding rsqrt_seed_def Let_def
    by (simp only: base "next" one frac sum.case)
qed

text \<open>Every input is either one of the two special cases or has a seed.\<close>

lemma rsqrt_seed_total:
  assumes "x \<noteq> 0"
  shows "\<exists>y. rsqrt_seed x = Inr y"
  using rsqrt_seed_eq [OF assms] by blast

lemma rsqrt_total: "\<exists>y. rsqrt x = Inr y"
proof (cases "x = 0 \<or> x = 0xFFFFFFFF")
  case True
  then show ?thesis
    by (auto simp: rsqrt_def)
next
  case False
  then obtain y where "rsqrt_seed x = Inr y"
    using rsqrt_seed_total [of x] by blast
  with False show ?thesis
    by (simp add: rsqrt_def)
qed

lemma rsqrt_exp_1: "rsqrt_exp 1 = 0"
  unfolding rsqrt_exp_def clz_def Let_def b2i_def by simp

lemma rsqrt_exp_5: "rsqrt_exp 5 = 2"
  unfolding rsqrt_exp_def clz_def Let_def b2i_def by simp

lemma rsqrt_exp_65536: "rsqrt_exp 65536 = 16"
  unfolding rsqrt_exp_def clz_def Let_def b2i_def by simp

text \<open>
  Claim C10, as stated, bounds the left-shift amount \<open>16 - exp\<close> by 15. At \<open>x = 1\<close> the
  exponent is 0 and the fraction is shifted left by 16.
\<close>

theorem rsqrt_shift_amount_counterexample:
  "(0::u32) < 1 \<and> (1::u32) < 0xFFFFFFFF \<and> rsqrt_exp 1 < 16 \<and>
   unat (16 - rsqrt_exp 1) = 16 \<and> \<not> unat (16 - rsqrt_exp 1) \<le> 15"
  by (simp add: rsqrt_exp_1)

text \<open>
  Claim C10, amended. For every input \<open>x\<close> other than 0 and \<open>0xFFFFFFFF\<close> the exponent
  \<open>31 - clz x\<close> lies in \<open>0..31\<close>; the read \<open>rsqrt_table[exp]\<close> is inside the table, and so
  is \<open>rsqrt_table[exp + 1]\<close>, which is read only when \<open>exp < 31\<close>; the shift \<open>1 << exp\<close> is
  by less than 32; the right-shift amount \<open>exp - 16\<close> (when \<open>exp \<ge> 16\<close>) lies in \<open>0..15\<close>
  and the left-shift amount \<open>16 - exp\<close> (when \<open>exp < 16\<close>) lies in \<open>1..16\<close>, all below 32.
  Hence \<open>rsqrt\<close> returns a value, with no out-of-range index and no out-of-range shift,
  on every input.
\<close>

theorem rsqrt_no_fault:
  "(\<exists>y. rsqrt x = Inr y) \<and>
   (x \<noteq> 0 \<and> x \<noteq> 0xFFFFFFFF \<longrightarrow>
      unat (rsqrt_exp x) \<le> 31 \<and>
      unat (rsqrt_exp x) < length rsqrt_table \<and>
      table_read (rsqrt_exp x) = Inr (rsqrt_table ! unat (rsqrt_exp x)) \<and>
      (rsqrt_exp x < 31 \<longrightarrow>
         unat (rsqrt_exp x + 1) < length rsqrt_table \<and>
         table_read (rsqrt_exp x + 1) = Inr (rsqrt_table ! unat (rsqrt_exp x + 1))) \<and>
      shl32 1 (rsqrt_exp x) = Inr (push_bit (unat (rsqrt_exp x)) 1) \<and>
      (16 \<le> rsqrt_exp x \<longrightarrow> unat (rsqrt_exp x - 16) \<le> 15) \<and>
      (rsqrt_exp x < 16 \<longrightarrow> 1 \<le> unat (16 - rsqrt_exp x) \<and> unat (16 - rsqrt_exp x) \<le> 16) \<and>
      (\<exists>y. rsqrt_seed x = Inr y))"
proof (intro conjI impI)
  show "\<exists>y. rsqrt x = Inr y"
    by (rule rsqrt_total)
next
  assume "x \<noteq> 0 \<and> x \<noteq> 0xFFFFFFFF"
  then have x: "x \<noteq> 0"
    by simp
  note ex = rsqrt_exp_nat [OF x]
  note sh = rsqrt_shift_amounts [OF ex(2)]
  show "unat (rsqrt_exp x) \<le> 31"
    by (rule ex(2))
  show "unat (rsqrt_exp x) < length rsqrt_table"
    using ex(2) by (simp add: rsqrt_table_def)
  show "table_read (rsqrt_exp x) = Inr (rsqrt_table ! unat (rsqrt_exp x))"
    using ex(2) by (rule table_read_in_range)
  show "shl32 1 (rsqrt_exp x) = Inr (push_bit (unat (rsqrt_exp x)) 1)"
    using ex(2) by (simp add: shl32_def)
  show "\<exists>y. rsqrt_seed x = Inr y"
    using x by (rule rsqrt_seed_total)
  {
    assume "rsqrt_exp x < 31"
    from sh(1) [OF this] have le: "unat (rsqrt_exp x + 1) \<le> 31"
      by simp
    then show "unat (rsqrt_exp x + 1) < length rsqrt_table"
      by (simp add: rsqrt_table_def)
    show "table_read (rsqrt_exp x + 1) = Inr (rsqrt_table ! unat (rsqrt_exp x + 1))"
      using le by (rule table_read_in_range)
  }
  {
    assume "16 \<le> rsqrt_exp x"
    from sh(2) [OF this] show "unat (rsqrt_exp x - 16) \<le> 15"
      by simp
  }
  {
    assume "rsqrt_exp x < 16"
    then have "\<not> 16 \<le> rsqrt_exp x"
      by simp
    from sh(3) [OF this]
    show "1 \<le> unat (16 - rsqrt_exp x)" and "unat (16 - rsqrt_exp x) \<le> 16"
      by simp_all
  }
qed

theorem rsqrt_no_fault_witness:
  "((5::u32) \<noteq> 0 \<and> (5::u32) \<noteq> 0xFFFFFFFF \<and> rsqrt_exp 5 < 31 \<and> rsqrt_exp 5 < 16 \<and>
    table_read (rsqrt_exp 5) = Inr (rsqrt_table ! unat (rsqrt_exp 5)) \<and>
    table_read (rsqrt_exp 5 + 1) = Inr (rsqrt_table ! unat (rsqrt_exp 5 + 1)) \<and>
    1 \<le> unat (16 - rsqrt_exp 5) \<and> unat (16 - rsqrt_exp 5) \<le> 16 \<and>
    (\<exists>y. rsqrt 5 = Inr y)) \<and>
   ((65536::u32) \<noteq> 0 \<and> (65536::u32) \<noteq> 0xFFFFFFFF \<and> 16 \<le> rsqrt_exp 65536 \<and>
    unat (rsqrt_exp 65536 - 16) \<le> 15 \<and> (\<exists>y. rsqrt 65536 = Inr y))"
  using rsqrt_no_fault [of 5] rsqrt_no_fault [of 65536]
  by (simp add: rsqrt_exp_5 rsqrt_exp_65536)

section \<open>The two special cases\<close>

text \<open>
  Claim C2. \<open>rsqrt\<close> returns \<open>0xFFFFFFFF\<close> for the input 0 and 1 for the input
  \<open>0xFFFFFFFF\<close>, and these are the only special cases: every other input takes the
  general path, the Newton step applied to the interpolated seed.
\<close>

theorem rsqrt_special_cases:
  "rsqrt 0 = Inr 0xFFFFFFFF \<and> rsqrt 0xFFFFFFFF = Inr 1 \<and>
   (x \<noteq> 0 \<and> x \<noteq> 0xFFFFFFFF \<longrightarrow>
      (\<exists>y. rsqrt_seed x = Inr y \<and> rsqrt x = Inr (newton_step_q16_inline y x)))"
proof (intro conjI impI)
  show "rsqrt 0 = Inr 0xFFFFFFFF" and "rsqrt 0xFFFFFFFF = Inr 1"
    by (simp_all add: rsqrt_def)
next
  assume x: "x \<noteq> 0 \<and> x \<noteq> 0xFFFFFFFF"
  then obtain y where "rsqrt_seed x = Inr y"
    using rsqrt_seed_total [of x] by blast
  with x show "\<exists>y. rsqrt_seed x = Inr y \<and> rsqrt x = Inr (newton_step_q16_inline y x)"
    by (simp add: rsqrt_def)
qed

theorem rsqrt_special_cases_witness:
  "(5::u32) \<noteq> 0 \<and> (5::u32) \<noteq> 0xFFFFFFFF \<and>
   (\<exists>y. rsqrt_seed 5 = Inr y \<and> rsqrt 5 = Inr (newton_step_q16_inline y 5))"
  using rsqrt_special_cases [of 5] by simp

section \<open>Values at single inputs\<close>

lemma rsqrt_exp_4: "rsqrt_exp 4 = 2"
  unfolding rsqrt_exp_def clz_def Let_def b2i_def by simp

lemma rsqrt_exp_16: "rsqrt_exp 16 = 4"
  unfolding rsqrt_exp_def clz_def Let_def b2i_def by simp

lemma rsqrt_exp_256: "rsqrt_exp 256 = 8"
  unfolding rsqrt_exp_def clz_def Let_def b2i_def by simp

lemma rsqrt_seed_1: "rsqrt_seed 1 = Inr 65536"
  unfolding rsqrt_seed_def Let_def rsqrt_exp_1
  by (simp add: table_read_def rsqrt_table_def shl32_def shr32_def umul_eq_times)

lemma rsqrt_seed_4: "rsqrt_seed 4 = Inr 32768"
  unfolding rsqrt_seed_def Let_def rsqrt_exp_4
  by (simp add: table_read_def rsqrt_table_def shl32_def shr32_def umul_eq_times)

lemma rsqrt_seed_16: "rsqrt_seed 16 = Inr 16384"
  unfolding rsqrt_seed_def Let_def rsqrt_exp_16
  by (simp add: table_read_def rsqrt_table_def shl32_def shr32_def umul_eq_times)

lemma rsqrt_seed_256: "rsqrt_seed 256 = Inr 4096"
  unfolding rsqrt_seed_def Let_def rsqrt_exp_256
  by (simp add: table_read_def rsqrt_table_def shl32_def shr32_def umul_eq_times)

lemma newton_1: "newton_step_q16_inline 65536 1 = 65536"
  by (simp add: newton_step_q16_inline_def mul32x32_def b2i_def)

lemma newton_4: "newton_step_q16_inline 32768 4 = 32768"
  by (simp add: newton_step_q16_inline_def mul32x32_def b2i_def)

lemma newton_16: "newton_step_q16_inline 16384 16 = 16384"
  by (simp add: newton_step_q16_inline_def mul32x32_def b2i_def)

lemma newton_256: "newton_step_q16_inline 4096 256 = 4096"
  by (simp add: newton_step_q16_inline_def mul32x32_def b2i_def)

lemma rsqrt_1: "rsqrt 1 = Inr 65536"
  by (simp add: rsqrt_def rsqrt_seed_1 newton_1)

lemma rsqrt_4: "rsqrt 4 = Inr 32768"
  by (simp add: rsqrt_def rsqrt_seed_4 newton_4)

lemma rsqrt_16: "rsqrt 16 = Inr 16384"
  by (simp add: rsqrt_def rsqrt_seed_16 newton_16)

lemma rsqrt_256: "rsqrt 256 = Inr 4096"
  by (simp add: rsqrt_def rsqrt_seed_256 newton_256)

text \<open>
  Claim C7. At the powers of four 1, 4, 16 and 256 the estimate is within 4 units of
  \<open>65536\<close>, \<open>32768\<close>, \<open>16384\<close> and \<open>4096\<close>; the code returns these four values exactly.
\<close>

theorem rsqrt_powers_of_four:
  "(\<exists>y. rsqrt 1 = Inr y \<and> \<bar>uint y - 65536\<bar> \<le> 4) \<and>
   (\<exists>y. rsqrt 4 = Inr y \<and> \<bar>uint y - 32768\<bar> \<le> 4) \<and>
   (\<exists>y. rsqrt 16 = Inr y \<and> \<bar>uint y - 16384\<bar> \<le> 4) \<and>
   (\<exists>y. rsqrt 256 = Inr y \<and> \<bar>uint y - 4096\<bar> \<le> 4) \<and>
   rsqrt 1 = Inr 65536 \<and> rsqrt 4 = Inr 32768 \<and> rsqrt 16 = Inr 16384 \<and> rsqrt 256 = Inr 4096"
  by (simp add: rsqrt_1 rsqrt_4 rsqrt_16 rsqrt_256)

text \<open>The two inputs on either side of \<open>2 ^ 30\<close>.\<close>

lemma rsqrt_exp_below_2p30: "rsqrt_exp 1073741823 = 29"
  unfolding rsqrt_exp_def clz_def Let_def b2i_def by simp

lemma rsqrt_exp_2p30: "rsqrt_exp 1073741824 = 30"
  unfolding rsqrt_exp_def clz_def Let_def b2i_def by simp

lemma rsqrt_seed_below_2p30: "rsqrt_seed 1073741823 = Inr 3"
  unfolding rsqrt_seed_def Let_def rsqrt_exp_below_2p30
  by (simp add: table_read_def rsqrt_table_def shl32_def shr32_def umul_eq_times)

lemma rsqrt_seed_2p30: "rsqrt_seed 1073741824 = Inr 2"
  unfolding rsqrt_seed_def Let_def rsqrt_exp_2p30
  by (simp add: table_read_def rsqrt_table_def shl32_def shr32_def umul_eq_times)

lemma newton_below_2p30: "newton_step_q16_inline 3 1073741823 = 1"
  by (simp add: newton_step_q16_inline_def mul32x32_def b2i_def)

lemma newton_2p30: "newton_step_q16_inline 2 1073741824 = 2"
  by (simp add: newton_step_q16_inline_def mul32x32_def b2i_def)

text \<open>
  Claim C3, as stated, fails: \<open>2 ^ 30 - 1 < 2 ^ 30\<close> lie strictly between 0 and
  \<open>0xFFFFFFFF\<close>, yet \<open>rsqrt\<close> returns 1 at the smaller input and 2 at the larger one.
\<close>

theorem rsqrt_antitone_counterexample:
  "(0::u32) < 1073741823 \<and> (1073741823::u32) < 1073741824 \<and> (1073741824::u32) < 0xFFFFFFFF \<and>
   rsqrt 1073741823 = Inr 1 \<and> rsqrt 1073741824 = Inr 2 \<and> (1::u32) < 2"
  by (simp add: rsqrt_def rsqrt_seed_below_2p30 rsqrt_seed_2p30 newton_below_2p30 newton_2p30
        word_less_nat_alt)

section \<open>The seed table against its formula\<close>

lemma round_between:
  fixes n :: int and v :: real
  assumes "0 \<le> v"
    and "(2 * of_int n - 1)\<^sup>2 < (2 * v)\<^sup>2"
    and "(2 * v)\<^sup>2 < (2 * of_int n + 1)\<^sup>2"
    and "0 < n"
  shows "round v = n"
proof -
  have "2 * of_int n - 1 < 2 * v"
    using assms(2) by (rule power2_less_imp_less) (use assms(1) in simp)
  moreover have "2 * v < 2 * of_int n + 1"
    using assms(3) by (rule power2_less_imp_less) (use assms(4) in simp)
  ultimately show ?thesis
    by (intro round_unique) linarith+
qed

text \<open>
  The nearest integer to \<open>2 ^ 16 / sqrt (2 ^ e)\<close>, decided in integer arithmetic:
  \<open>n\<close> is the one with \<open>(2 * n - 1)\<^sup>2 * 2 ^ e < 2 ^ 34 < (2 * n + 1)\<^sup>2 * 2 ^ e\<close>.
\<close>

lemma spec_seed_eq:
  fixes n :: int
  assumes "0 < n"
    and "(2 * n - 1)\<^sup>2 * 2 ^ e < 2 ^ 34"
    and "2 ^ 34 < (2 * n + 1)\<^sup>2 * 2 ^ e"
  shows "spec_seed e = n"
proof -
  define v :: real where "v = 2 ^ 16 / sqrt (2 ^ e)"
  have v: "0 \<le> v"
    by (simp add: v_def)
  have "(2 * v)\<^sup>2 = 4 * ((2 ^ 16)\<^sup>2 / (sqrt (2 ^ e))\<^sup>2)"
    by (simp add: v_def power_mult_distrib power_divide)
  also have "\<dots> = 2 ^ 34 / 2 ^ e"
    by simp
  finally have sq: "(2 * v)\<^sup>2 = 2 ^ 34 / 2 ^ e" .
  have "real_of_int ((2 * n - 1)\<^sup>2 * 2 ^ e) < real_of_int (2 ^ 34)"
    using assms(2) by (simp only: of_int_less_iff)
  then have "(2 * real_of_int n - 1)\<^sup>2 < 2 ^ 34 / 2 ^ e"
    by (simp add: pos_less_divide_eq)
  then have lo: "(2 * of_int n - 1)\<^sup>2 < (2 * v)\<^sup>2"
    by (simp only: sq)
  have "real_of_int (2 ^ 34) < real_of_int ((2 * n + 1)\<^sup>2 * 2 ^ e)"
    using assms(3) by (simp only: of_int_less_iff)
  then have "2 ^ 34 / 2 ^ e < (2 * real_of_int n + 1)\<^sup>2"
    by (simp add: pos_divide_less_eq)
  then have hi: "(2 * v)\<^sup>2 < (2 * of_int n + 1)\<^sup>2"
    by (simp only: sq)
  show ?thesis
    unfolding spec_seed_def v_def [symmetric] using v lo hi assms(1) by (rule round_between)
qed

text \<open>The formula's value for each of the 32 exponents.\<close>

lemma spec_seed_values:
  "spec_seed 0 = 65536" "spec_seed 1 = 46341" "spec_seed 2 = 32768" "spec_seed 3 = 23170"
  "spec_seed 4 = 16384" "spec_seed 5 = 11585" "spec_seed 6 = 8192" "spec_seed 7 = 5793"
  "spec_seed 8 = 4096" "spec_seed 9 = 2896" "spec_seed 10 = 2048" "spec_seed 11 = 1448"
  "spec_seed 12 = 1024" "spec_seed 13 = 724" "spec_seed 14 = 512" "spec_seed 15 = 362"
  "spec_seed 16 = 256" "spec_seed 17 = 181" "spec_seed 18 = 128" "spec_seed 19 = 91"
  "spec_seed 20 = 64" "spec_seed 21 = 45" "spec_seed 22 = 32" "spec_seed 23 = 23"
  "spec_seed 24 = 16" "spec_seed 25 = 11" "spec_seed 26 = 8" "spec_seed 27 = 6"
  "spec_seed 28 = 4" "spec_seed 29 = 3" "spec_seed 30 = 2" "spec_seed 31 = 1"
  by (rule spec_seed_eq; simp)+

lemma rsqrt_table_length: "length rsqrt_table = 32"
  by (simp add: rsqrt_table_def)

lemma rsqrt_table_head: "rsqrt_table ! 0 = 65536"
  by (simp add: rsqrt_table_def)

lemma rsqrt_table_successively: "successively (\<lambda>a b. b \<le> a) rsqrt_table"
  by (simp add: rsqrt_table_def word_le_nat_alt)

text \<open>The entries do not increase with the index.\<close>

lemma rsqrt_table_non_increasing:
  assumes "i < 31"
  shows "rsqrt_table ! Suc i \<le> rsqrt_table ! i"
  using successively_nth [OF rsqrt_table_successively, of i] assms
  by (simp add: rsqrt_table_length)

text \<open>
  Every entry but one is the formula's value: the table and the formula differ at
  index 19 and nowhere else.
\<close>

lemma upt_32:
  "[0..<32] =
     [0, 1, 2, 3, 4, 5, 6, 7, 8, 9, 10, 11, 12, 13, 14, 15,
      16, 17, 18, 19, 20, 21, 22, 23, 24, 25, 26, 27, 28, 29, 30, 31]"
  by (simp add: upt_conv_Cons)

lemma rsqrt_table_nearest_elsewhere:
  "map spec_seed [0..<32] = (map uint rsqrt_table)[19 := 91]"
  unfolding upt_32 list.map spec_seed_values by (simp add: rsqrt_table_def)

text \<open>
  Claim C9. The table has 32 entries, starts with 65536 and does not increase
  (\<open>rsqrt_table_non_increasing\<close>), but it is not the nearest integer to
  \<open>2 ^ 16 / sqrt (2 ^ e)\<close> at every index: at \<open>e = 19\<close> the real value is about 90.51, whose
  nearest integer is 91, and the table holds 90.
\<close>

theorem rsqrt_table_entry_19_not_nearest:
  "length rsqrt_table = 32 \<and> rsqrt_table ! 0 = 65536 \<and>
   rsqrt_table ! 19 = 90 \<and> spec_seed 19 = 91 \<and> uint (rsqrt_table ! 19) \<noteq> spec_seed 19"
  by (simp add: rsqrt_table_length rsqrt_table_head spec_seed_values) (simp add: rsqrt_table_def)

section \<open>The Newton step on a small seed\<close>

lemma unat_of_nat_small:
  assumes "n < 2 ^ 32"
  shows "unat (word_of_nat n :: u32) = n"
  using assms by (simp add: unat_of_nat)

lemma unat_join_hi_lo:
  "unat (push_bit 16 h OR drop_bit 16 l :: u32) = (unat h mod 65536) * 65536 + unat l div 65536"
proof -
  have "push_bit 16 h AND drop_bit 16 l = 0"
    by (rule bit_eqI) (auto simp: bit_simps dest: bit_imp_le_length)
  then have "push_bit 16 h OR drop_bit 16 l = push_bit 16 h + drop_bit 16 l"
    by (simp only: disjunctive_add_eq_or)
  moreover have "unat l div 65536 < 65536"
    using unsigned_less [of l, where 'a = nat] by simp
  then have "unat (push_bit 16 h) + unat (drop_bit 16 l) < 2 ^ 32"
    by (simp add: unat_shl16 unat_drop_bit_div)
  then have "unat (push_bit 16 h + drop_bit 16 l) = unat (push_bit 16 h) + unat (drop_bit 16 l)"
    by (rule unat_add_small)
  ultimately show ?thesis
    by (simp add: unat_shl16 unat_drop_bit_div)
qed

text \<open>Bits 16 to 47 of a product, read from its high and low words.\<close>

lemma middle_bits:
  fixes p :: nat
  assumes "p div 65536 \<le> 196608"
  shows "(p div 2 ^ 32 mod 65536) * 65536 + p mod 2 ^ 32 div 65536 = p div 65536"
proof -
  have "p div 2 ^ 32 = p div 65536 div 65536"
    by (simp add: div_mult2_eq)
  also have "\<dots> \<le> 196608 div 65536"
    using assms by (rule div_le_mono)
  finally have h: "p div 2 ^ 32 \<le> 3"
    by simp
  have "p div 65536 = (p mod 2 ^ 32 + p div 2 ^ 32 * 65536 * 65536) div 65536"
    by (simp add: mult.assoc)
  also have "\<dots> = p mod 2 ^ 32 div 65536 + p div 2 ^ 32 * 65536"
    by (simp only: div_mult_self1 [of 65536, simplified] div_mult_self3 [of 65536, simplified])
  finally show ?thesis
    using h by simp
qed

text \<open>
  When the square of the seed fits in 32 bits and no subtraction or addition of the
  step wraps around, the step computes
  \<open>(y * (3 * 2 ^ 16 - x * y\<^sup>2 div 2 ^ 16) + 2 ^ 16) div 2 ^ 17\<close> over the natural numbers.
\<close>

lemma newton_step_small:
  fixes x y :: u32
  defines "Q \<equiv> unat x * (unat y * unat y) div 65536"
  assumes sq: "unat y * unat y < 2 ^ 32"
    and q: "Q \<le> 196608"
    and t: "unat y * (196608 - Q) + 65536 < 2 ^ 32"
  shows "unat (newton_step_q16_inline y x) = (unat y * (196608 - Q) + 65536) div 131072"
proof -
  let ?X = "unat x" and ?Y = "unat y"
  define P where "P = ?X * (?Y * ?Y)"
  define T where "T = 196608 - Q"
  have Q: "Q = P div 65536"
    by (simp add: Q_def P_def)
  have m1: "mul32x32 y y = (0, word_of_nat (?Y * ?Y))"
    using sq by (simp add: mul32x32_eq)
  have m2: "mul32x32 x 0 = (0, 0)"
    by (simp add: mul32x32_eq)
  have y2: "unat (word_of_nat (?Y * ?Y) :: u32) = ?Y * ?Y"
    using sq by (rule unat_of_nat_small)
  have m3: "mul32x32 x (word_of_nat (?Y * ?Y)) =
              (word_of_nat (P div 2 ^ 32), word_of_nat (P mod 2 ^ 32))"
    by (simp only: mul32x32_eq y2 P_def)
  have "P div 2 ^ 32 \<le> P div 65536"
    by (simp add: div_le_mono2)
  then have hsmall: "P div 2 ^ 32 < 2 ^ 32"
    using q Q by simp
  have tb: "push_bit 16 (word_of_nat (P div 2 ^ 32)) OR drop_bit 16 (word_of_nat (P mod 2 ^ 32))
              = (word_of_nat Q :: u32)"
  proof -
    have "unat (push_bit 16 (word_of_nat (P div 2 ^ 32)) OR
                drop_bit 16 (word_of_nat (P mod 2 ^ 32)) :: u32)
          = (P div 2 ^ 32 mod 65536) * 65536 + P mod 2 ^ 32 div 65536"
      using hsmall by (simp only: unat_join_hi_lo unat_of_nat_small) (simp add: unat_of_nat)
    also have "\<dots> = Q"
      using q by (simp only: Q middle_bits)
    also have "\<dots> = unat (word_of_nat Q :: u32)"
      using q by (simp add: unat_of_nat)
    finally show ?thesis
      by (simp only: word_unat_eq_iff)
  qed
  have tm: "(push_bit 16 3 :: u32) - word_of_nat Q = word_of_nat T"
    using q by (simp add: T_def of_nat_diff)
  have Tsmall: "T < 2 ^ 32" and YT: "?Y * T < 2 ^ 32" and YT': "?Y * T + 65536 < 2 ^ 32"
    using t by (simp_all add: T_def)
  have uT: "unat (word_of_nat T :: u32) = T"
    using Tsmall by (rule unat_of_nat_small)
  have m4: "mul32x32 y (word_of_nat T) = (0, word_of_nat (?Y * T))"
    using YT by (simp add: mul32x32_eq uT)
  have lp: "(word_of_nat (?Y * T) :: u32) + push_bit 16 1 = word_of_nat (?Y * T + 65536)"
    by simp
  have nocarry: "\<not> (word_of_nat (?Y * T + 65536) :: u32) < word_of_nat (?Y * T)"
    by (simp only: word_less_nat_alt unat_of_nat_small [OF YT] unat_of_nat_small [OF YT'])
  have "newton_step_q16_inline y x = drop_bit 17 (word_of_nat (?Y * T + 65536))"
    unfolding newton_step_q16_inline_def Let_def m1 m2 m3 prod.case
    by (simp only: push_bit_of_0 add_0 tb tm m4 prod.case lp nocarry b2i_def if_False
          of_int_0 or.left_neutral)
  then have "unat (newton_step_q16_inline y x) = (?Y * T + 65536) div 2 ^ 17"
    using YT' by (simp only: unat_drop_bit_div unat_of_nat_small)
  then show ?thesis
    by (simp add: T_def)
qed

section \<open>The estimate on the two highest exponents\<close>

text \<open>For \<open>2 ^ 30 \<le> x < 2 ^ 31\<close> the seed is 2, whatever the fraction.\<close>

lemma rsqrt_bucket_30:
  assumes lo: "2 ^ 30 \<le> unat x" and hi: "unat x < 2 ^ 31"
  shows "\<exists>y. rsqrt x = Inr y \<and> unat y = (458752 - 2 * (unat x div 16384)) div 131072"
proof -
  have x0: "x \<noteq> 0" and xm: "x \<noteq> 0xFFFFFFFF"
    using lo hi by auto
  have e: "unat (rsqrt_exp x) = 30"
    using lo hi by (intro rsqrt_exp_unique) simp_all
  have "(2 ^ 30 :: u32) \<le> x"
    using lo by (simp add: word_le_nat_alt)
  then have "unat (x - 2 ^ 30) = unat x - unat (2 ^ 30 :: u32)"
    by (rule unat_sub)
  then have "unat (x - 2 ^ 30) < 2 ^ 30"
    using hi by simp
  then have "unat (drop_bit 16 (drop_bit 14 (x - 2 ^ 30))) = 0"
    by (simp only: unat_drop_bit_div) simp
  then have f0: "drop_bit 16 (drop_bit 14 (x - 2 ^ 30)) = 0"
    by (simp only: unat_eq_0)
  have seed: "rsqrt_seed x = Inr 2"
    using rsqrt_seed_eq [OF x0] f0 by (simp add: e rsqrt_table_def umul_eq_times)
  let ?Q = "unat x * (unat (2 :: u32) * unat (2 :: u32)) div 65536"
  have Q: "?Q = unat x div 16384"
    by simp
  have Qle: "unat x div 16384 \<le> 131072"
    using hi by simp
  have "unat (newton_step_q16_inline 2 x) = (unat (2 :: u32) * (196608 - ?Q) + 65536) div 131072"
    using Qle by (intro newton_step_small) (simp_all only: Q, simp_all)
  also have "\<dots> = (458752 - 2 * (unat x div 16384)) div 131072"
    using Qle by (simp only: Q) (simp add: algebra_simps)
  finally show ?thesis
    using x0 xm by (simp add: rsqrt_def seed)
qed

text \<open>For \<open>2 ^ 31 \<le> x < 2 ^ 32 - 1\<close> the seed is 1 and so is the estimate.\<close>

lemma rsqrt_bucket_31:
  assumes lo: "2 ^ 31 \<le> unat x" and xm: "x \<noteq> 0xFFFFFFFF"
  shows "rsqrt x = Inr 1"
proof -
  have x0: "x \<noteq> 0"
    using lo by auto
  have hi: "unat x < 2 ^ 32"
    using unsigned_less [of x, where 'a = nat] by simp
  have e: "unat (rsqrt_exp x) = 31"
    using lo hi by (intro rsqrt_exp_unique) simp_all
  have seed: "rsqrt_seed x = Inr 1"
    using rsqrt_seed_eq [OF x0] by (simp add: e rsqrt_table_def umul_eq_times)
  let ?Q = "unat x * (unat (1 :: u32) * unat (1 :: u32)) div 65536"
  have Q: "?Q = unat x div 65536"
    by simp
  have Qlo: "32768 \<le> unat x div 65536" and Qhi: "unat x div 65536 < 65536"
    using lo hi by simp_all
  have "unat (newton_step_q16_inline 1 x) = (unat (1 :: u32) * (196608 - ?Q) + 65536) div 131072"
    using Qhi by (intro newton_step_small) (simp_all only: Q, simp_all)
  also have "\<dots> = (262144 - unat x div 65536) div 131072"
    using Qhi by (simp only: Q) simp
  also have "\<dots> = 1"
    using Qlo Qhi by simp
  finally have "newton_step_q16_inline 1 x = 1"
    by (simp add: word_unat_eq_iff)
  then show ?thesis
    using x0 xm by (simp add: rsqrt_def seed)
qed

text \<open>
  Claim C3, amended. \<open>rsqrt\<close> is antitone from \<open>2 ^ 30\<close> upwards: for every pair
  \<open>x1 < x2\<close> with \<open>2 ^ 30 \<le> x1\<close> and \<open>x2 < 0xFFFFFFFF\<close>, \<open>rsqrt x1 \<ge> rsqrt x2\<close>. The bound
  \<open>2 ^ 30\<close> cannot be lowered: \<open>rsqrt (2 ^ 30 - 1) = 1 < 2 = rsqrt (2 ^ 30)\<close>.
\<close>

theorem rsqrt_antitone_from_2p30:
  assumes "0x40000000 \<le> x1" and "x1 < x2" and "x2 < 0xFFFFFFFF"
  shows "\<exists>y1 y2. rsqrt x1 = Inr y1 \<and> rsqrt x2 = Inr y2 \<and> y2 \<le> y1"
proof -
  have lo1: "2 ^ 30 \<le> unat x1" and lt: "unat x1 < unat x2"
    using assms by (simp_all add: word_le_nat_alt word_less_nat_alt)
  have x2m: "x2 \<noteq> 0xFFFFFFFF"
    using assms(3) by auto
  have x1m: "x1 \<noteq> 0xFFFFFFFF"
    using assms(2,3) by auto
  show ?thesis
  proof (cases "2 ^ 31 \<le> unat x1")
    case True
    then have "2 ^ 31 \<le> unat x2"
      using lt by simp
    then have "rsqrt x2 = Inr 1"
      using x2m by (rule rsqrt_bucket_31)
    moreover have "rsqrt x1 = Inr 1"
      using True x1m by (rule rsqrt_bucket_31)
    ultimately show ?thesis
      by simp
  next
    case False
    then have hi1: "unat x1 < 2 ^ 31"
      by simp
    from rsqrt_bucket_30 [OF lo1 hi1] obtain y1
      where y1: "rsqrt x1 = Inr y1"
        and u1: "unat y1 = (458752 - 2 * (unat x1 div 16384)) div 131072"
      by blast
    have q1: "unat x1 div 16384 < 131072"
      using hi1 by simp
    show ?thesis
    proof (cases "2 ^ 31 \<le> unat x2")
      case True
      then have y2: "rsqrt x2 = Inr 1"
        using x2m by (rule rsqrt_bucket_31)
      have "1 \<le> unat y1"
        using q1 by (simp add: u1)
      then have "1 \<le> y1"
        by (simp add: word_le_nat_alt)
      with y1 y2 show ?thesis
        by simp
    next
      case False
      then have hi2: "unat x2 < 2 ^ 31"
        by simp
      have lo2: "2 ^ 30 \<le> unat x2"
        using lo1 lt by simp
      from rsqrt_bucket_30 [OF lo2 hi2] obtain y2
        where y2: "rsqrt x2 = Inr y2"
          and u2: "unat y2 = (458752 - 2 * (unat x2 div 16384)) div 131072"
        by blast
      have "unat x1 div 16384 \<le> unat x2 div 16384"
        using lt by (intro div_le_mono) simp
      then have "458752 - 2 * (unat x2 div 16384) \<le> 458752 - 2 * (unat x1 div 16384)"
        by simp
      then have "unat y2 \<le> unat y1"
        by (simp only: u1 u2 div_le_mono)
      then have "y2 \<le> y1"
        by (simp only: word_le_nat_alt)
      with y1 y2 show ?thesis
        by simp
    qed
  qed
qed

theorem rsqrt_antitone_from_2p30_witness:
  "(0x40000000::u32) \<le> 0x40000000 \<and> (0x40000000::u32) < 0x80000000 \<and>
   (0x80000000::u32) < 0xFFFFFFFF \<and>
   (\<exists>y1 y2. rsqrt 0x40000000 = Inr y1 \<and> rsqrt 0x80000000 = Inr y2 \<and> y2 \<le> y1)"
  using rsqrt_antitone_from_2p30 [of "0x40000000" "0x80000000"] by simp

text \<open>
  The order also fails inside a bucket, away from the powers of two: the quantisation
  of the seed and of the Newton step makes the estimate rise by one unit between the
  neighbours 5352 and 5353.
\<close>

lemma rsqrt_exp_5352: "rsqrt_exp 5352 = 12" and rsqrt_exp_5353: "rsqrt_exp 5353 = 12"
  unfolding rsqrt_exp_def clz_def Let_def b2i_def by simp_all

lemma rsqrt_seed_5352: "rsqrt_seed 5352 = Inr 933"
  unfolding rsqrt_seed_def Let_def rsqrt_exp_5352
  by (simp add: table_read_def rsqrt_table_def shl32_def shr32_def umul_eq_times)

lemma rsqrt_seed_5353: "rsqrt_seed 5353 = Inr 932"
  unfolding rsqrt_seed_def Let_def rsqrt_exp_5353
  by (simp add: table_read_def rsqrt_table_def shl32_def shr32_def umul_eq_times)

lemma rsqrt_rises_inside_bucket: "rsqrt 5352 = Inr 893 \<and> rsqrt 5353 = Inr 894"
  by (simp add: rsqrt_def rsqrt_seed_5352 rsqrt_seed_5353)
     (simp add: newton_step_q16_inline_def mul32x32_def b2i_def)

end
